theory Spec2Isabelle
  imports Complex_Main "HOL-Library.AList" "HOL-Library.Log_Nat"
begin

section \<open>Token bucket rate limiter\<close>

text \<open>
  The embedding follows the class \<open>RateLimiter\<close> of the rate limiting module.
  \<open>Date.now()\<close> is a parameter \<open>now\<close> of every operation that reads the clock.
  The \<open>Map\<close> of buckets is an association list in insertion order: \<open>Map.get\<close> is
  \<open>map_of\<close>, \<open>Map.set\<close> is \<open>AList.update\<close> (an existing key keeps its
  place, a new key goes to the end) and \<open>Map.delete\<close> is \<open>AList.delete\<close>.

  The methods are embedded twice. In the first embedding a \<open>number\<close> is a real
  number and the arithmetic is exact: it agrees with the code where every operation of
  the code is exact (whole numbers below \<open>2 ^ 53\<close>, no division by zero), and it
  carries the properties that do not depend on the last bit of a result: which entries
  a call touches, the lifecycle of the timer, the sweep, the bounds on the tokens. The
  theorems on it that go through a division state that the divisor is not zero. In the
  second embedding (\<open>isAllowed_dbl\<close>, \<open>getResetTimeSeconds_dbl\<close>) a
  \<open>number\<close> is an IEEE 754 double and every operation rounds as the code does: it
  carries the claims about the value the code computes.
\<close>

subsection \<open>Data\<close>

record RateLimitConfig =
  tokensPerInterval :: real
  interval :: real
  bucketSize :: real

record TokenBucket =
  tokens :: real
  lastRefill :: real

record RateLimiter =
  buckets :: "(string \<times> TokenBucket) list"
  config :: RateLimitConfig
  cleanupIntervalId :: "nat option"

text \<open>The constructor stores the configuration; the map is empty and no timer is set.\<close>

definition new_RateLimiter :: "RateLimitConfig \<Rightarrow> RateLimiter" where
  "new_RateLimiter cfg = \<lparr>buckets = [], config = cfg, cleanupIntervalId = None\<rparr>"

text \<open>The configuration of the default instance \<open>rateLimiter\<close>.\<close>

definition rateLimiter_config :: RateLimitConfig where
  "rateLimiter_config = \<lparr>tokensPerInterval = 1, interval = 2000, bucketSize = 10\<rparr>"

definition rateLimiter :: RateLimiter where
  "rateLimiter = new_RateLimiter rateLimiter_config"

subsection \<open>The timers of the runtime\<close>

text \<open>
  \<open>setInterval\<close> and \<open>clearInterval\<close> belong to the platform. The runtime keeps the
  list of active timers (handle and period) and the last handle it gave out; a new handle
  is the next integer, so it is greater than zero, as the HTML standard requires of a
  timer handle. \<open>clearInterval\<close> removes the timer with the given handle, if any.
\<close>

record TimerRuntime =
  activeTimers :: "(nat \<times> real) list"
  lastHandle :: nat

definition setInterval :: "real \<Rightarrow> TimerRuntime \<Rightarrow> nat \<times> TimerRuntime" where
  "setInterval ms rt =
     (let h = Suc (lastHandle rt)
      in (h, rt\<lparr>activeTimers := activeTimers rt @ [(h, ms)], lastHandle := h\<rparr>))"

definition clearInterval :: "nat \<Rightarrow> TimerRuntime \<Rightarrow> TimerRuntime" where
  "clearInterval h rt = rt\<lparr>activeTimers := filter (\<lambda>(h', ms). h' \<noteq> h) (activeTimers rt)\<rparr>"

definition no_timers :: TimerRuntime where
  "no_timers = \<lparr>activeTimers = [], lastHandle = 0\<rparr>"

text \<open>
  The test \<open>if (this.cleanupIntervalId)\<close> is a truthiness test: \<open>null\<close> and the
  number \<open>0\<close> are falsy, every other handle is truthy. The period of
  \<open>startCleanup\<close> is a parameter; a call without argument passes 60000. The
  callback of the timer is \<open>cleanup\<close>, run with the clock value of the moment the
  timer fires.
\<close>

definition truthy :: "nat option \<Rightarrow> bool" where
  "truthy h = (case h of None \<Rightarrow> False | Some n \<Rightarrow> n \<noteq> 0)"

definition startCleanup :: "real \<Rightarrow> RateLimiter \<times> TimerRuntime \<Rightarrow> RateLimiter \<times> TimerRuntime" where
  "startCleanup intervalMs w =
     (case w of (s, rt) \<Rightarrow>
        if truthy (cleanupIntervalId s) then (s, rt)
        else (case setInterval intervalMs rt of
                (h, rt') \<Rightarrow> (s\<lparr>cleanupIntervalId := Some h\<rparr>, rt')))"

definition stopCleanup :: "RateLimiter \<times> TimerRuntime \<Rightarrow> RateLimiter \<times> TimerRuntime" where
  "stopCleanup w =
     (case w of (s, rt) \<Rightarrow>
        if truthy (cleanupIntervalId s)
        then (case cleanupIntervalId s of
                Some h \<Rightarrow> (s\<lparr>cleanupIntervalId := None\<rparr>, clearInterval h rt)
              | None \<Rightarrow> (s, rt))
        else (s, rt))"

subsection \<open>The sweep\<close>

definition staleThreshold :: real where
  "staleThreshold = 5 * 60 * 1000"

text \<open>
  The loop of \<open>cleanup\<close> visits every entry of the map and deletes the entry it is at
  when the bucket is stale. The fold runs over the entries the map has when the loop
  starts; a deletion is applied to the map.
\<close>

definition cleanup_entry :: "real \<Rightarrow> string \<times> TokenBucket \<Rightarrow> (string \<times> TokenBucket) list \<Rightarrow> (string \<times> TokenBucket) list" where
  "cleanup_entry now e bs =
     (case e of (key, bucket) \<Rightarrow>
        if now - lastRefill bucket > staleThreshold then AList.delete key bs else bs)"

definition cleanup :: "real \<Rightarrow> RateLimiter \<Rightarrow> RateLimiter" where
  "cleanup now s = s\<lparr>buckets := fold (cleanup_entry now) (buckets s) (buckets s)\<rparr>"

subsection \<open>The admission decision\<close>

definition isAllowed :: "string \<Rightarrow> real \<Rightarrow> RateLimiter \<Rightarrow> bool \<times> RateLimiter" where
  "isAllowed identifier now s =
     (case map_of (buckets s) identifier of
        None \<Rightarrow>
          (True, s\<lparr>buckets := AList.update identifier
                      \<lparr>tokens = bucketSize (config s) - 1, lastRefill = now\<rparr> (buckets s)\<rparr>)
      | Some bucket \<Rightarrow>
          (let elapsed = now - lastRefill bucket;
               tokensToAdd = of_int \<lfloor>elapsed / interval (config s)\<rfloor> * tokensPerInterval (config s);
               bucket1 = bucket\<lparr>tokens := min (bucketSize (config s)) (tokens bucket + tokensToAdd)\<rparr>;
               bucket2 = bucket1\<lparr>lastRefill := now\<rparr>
           in if tokens bucket2 \<ge> 1
              then (True, s\<lparr>buckets := AList.update identifier
                              (bucket2\<lparr>tokens := tokens bucket2 - 1\<rparr>) (buckets s)\<rparr>)
              else (False, s\<lparr>buckets := AList.update identifier bucket2 (buckets s)\<rparr>)))"

definition getRemainingTokens :: "string \<Rightarrow> RateLimiter \<Rightarrow> real" where
  "getRemainingTokens identifier s =
     (case map_of (buckets s) identifier of
        None \<Rightarrow> bucketSize (config s)
      | Some bucket \<Rightarrow> of_int \<lfloor>tokens bucket\<rfloor>)"

definition getResetTimeSeconds :: "string \<Rightarrow> RateLimiter \<Rightarrow> real" where
  "getResetTimeSeconds identifier s =
     (case map_of (buckets s) identifier of
        None \<Rightarrow> 0
      | Some bucket \<Rightarrow>
          if tokens bucket \<ge> 1 then 0
          else (let tokensNeeded = 1 - tokens bucket;
                    msUntilToken = of_int \<lceil>(tokensNeeded / tokensPerInterval (config s)) * interval (config s)\<rceil> :: real
                in of_int \<lceil>msUntilToken / 1000\<rceil>))"

subsection \<open>Sequences of calls\<close>

text \<open>\<open>burst n\<close> calls \<open>isAllowed\<close> \<open>n\<close> times at one instant and collects the answers.\<close>

fun burst :: "nat \<Rightarrow> string \<Rightarrow> real \<Rightarrow> RateLimiter \<Rightarrow> bool list \<times> RateLimiter" where
  "burst 0 identifier now s = ([], s)"
| "burst (Suc n) identifier now s =
     (case isAllowed identifier now s of
        (r, s') \<Rightarrow> (case burst n identifier now s' of (rs, s'') \<Rightarrow> (r # rs, s'')))"

text \<open>
  The operations a caller or the timer can run on the store, each with the clock value it
  reads, if it reads the clock.
\<close>

datatype operation =
    IsAllowed string real
  | GetRemainingTokens string
  | GetResetTimeSeconds string
  | Cleanup real

fun step :: "operation \<Rightarrow> RateLimiter \<Rightarrow> RateLimiter" where
  "step (IsAllowed identifier now) s = snd (isAllowed identifier now s)"
| "step (GetRemainingTokens identifier) s = s"
| "step (GetResetTimeSeconds identifier) s = s"
| "step (Cleanup now) s = cleanup now s"

fun run :: "operation list \<Rightarrow> RateLimiter \<Rightarrow> RateLimiter" where
  "run [] s = s"
| "run (x # xs) s = run xs (step x s)"

text \<open>The clock values read by a sequence of operations, in order.\<close>

fun clock_reads :: "operation list \<Rightarrow> real list" where
  "clock_reads [] = []"
| "clock_reads (IsAllowed identifier now # xs) = now # clock_reads xs"
| "clock_reads (Cleanup now # xs) = now # clock_reads xs"
| "clock_reads (x # xs) = clock_reads xs"


text \<open>
  The calls that reach a limiter and the runtime it runs in: the two lifecycle controls
  and the operations on the store. The sweep is \<open>Running\<close> when the limiter holds a
  truthy timer handle and \<open>Stopped\<close> otherwise.
\<close>

datatype call = Start real | Stop | Call operation

fun call_step :: "call \<Rightarrow> RateLimiter \<times> TimerRuntime \<Rightarrow> RateLimiter \<times> TimerRuntime" where
  "call_step (Start intervalMs) w = startCleanup intervalMs w"
| "call_step Stop w = stopCleanup w"
| "call_step (Call x) w = (step x (fst w), snd w)"

fun call_run :: "call list \<Rightarrow> RateLimiter \<times> TimerRuntime \<Rightarrow> RateLimiter \<times> TimerRuntime" where
  "call_run [] w = w"
| "call_run (c # cs) w = call_run cs (call_step c w)"

datatype SweepState = Stopped | Running

definition sweep_state :: "RateLimiter \<times> TimerRuntime \<Rightarrow> SweepState" where
  "sweep_state w = (if truthy (cleanupIntervalId (fst w)) then Running else Stopped)"

text \<open>
  The handle the limiter holds and the timers of the runtime agree: no handle and no
  timer, or one handle, not zero, and exactly the timer with that handle.
\<close>

definition timer_agrees :: "RateLimiter \<times> TimerRuntime \<Rightarrow> bool" where
  "timer_agrees w =
     (case cleanupIntervalId (fst w) of
        None \<Rightarrow> activeTimers (snd w) = []
      | Some h \<Rightarrow> h \<noteq> 0 \<and> map fst (activeTimers (snd w)) = [h])"

subsection \<open>Double-precision numbers\<close>

text \<open>
  A JavaScript \<open>number\<close> is an IEEE 754 double: a finite value, an infinity or
  \<open>NaN\<close>. Every arithmetic operation computes the exact result and rounds it to the
  nearest double, a tie going to the even significand (\<open>rnd\<close>): a finite double is
  \<open>m * 2 ^ e\<close> with \<open>\<bar>m\<bar> < 2 ^ 53\<close> and \<open>- 1074 \<le> e\<close>, and a rounded value
  of magnitude \<open>2 ^ 1024\<close> or more is an infinity. The model has one zero, which
  stands for \<open>+0\<close>: the sign of a zero shows only in a division by it.
\<close>

datatype jsnum = Num real | PosInf | NegInf | NaN

text \<open>\<open>pow2 e\<close> is \<open>2 ^ e\<close> for an integer exponent.\<close>

definition pow2 :: "int \<Rightarrow> real" where
  "pow2 e = (if 0 \<le> e then 2 ^ nat e else 1 / 2 ^ nat (- e))"

text \<open>Rounding to the nearest integer, a tie going to the even one.\<close>

definition rne :: "real \<Rightarrow> int" where
  "rne q = (let f = \<lfloor>q\<rfloor>; d = q - of_int f
            in if d < 1 / 2 then f
               else if 1 / 2 < d then f + 1
               else if even f then f else f + 1)"

text \<open>
  For \<open>0 < x\<close>, \<open>ilog2 x\<close> is the exponent \<open>k\<close> with
  \<open>2 ^ k \<le> x < 2 ^ (k + 1)\<close>, computed from the bit length of an integer.
\<close>

definition ilog2 :: "real \<Rightarrow> int" where
  "ilog2 x = (if 1 \<le> x then bitlen \<lfloor>x\<rfloor> - 1 else - bitlen (\<lceil>1 / x\<rceil> - 1))"

text \<open>
  A positive \<open>x\<close> is scaled so that its significand has 53 bits (fewer for a
  subnormal, whose exponent stops at \<open>- 1074\<close>), and the significand is rounded.
\<close>

definition round_pos :: "real \<Rightarrow> real" where
  "round_pos x = (let e = max (ilog2 x - 52) (- 1074) in of_int (rne (x / pow2 e)) * pow2 e)"

definition rnd :: "real \<Rightarrow> jsnum" where
  "rnd x = (if x = 0 then Num 0
            else if 0 < x then (if 2 ^ 1024 \<le> round_pos x then PosInf else Num (round_pos x))
            else (if 2 ^ 1024 \<le> round_pos (- x) then NegInf else Num (- round_pos (- x))))"

text \<open>
  The operators \<open>+\<close>, \<open>-\<close>, \<open>*\<close> and \<open>/\<close> on doubles: the exact result,
  rounded, and the rules of IEEE 754 for the infinities and \<open>NaN\<close>.
\<close>

fun js_neg :: "jsnum \<Rightarrow> jsnum" where
  "js_neg (Num x) = Num (- x)"
| "js_neg PosInf = NegInf"
| "js_neg NegInf = PosInf"
| "js_neg NaN = NaN"

fun js_add :: "jsnum \<Rightarrow> jsnum \<Rightarrow> jsnum" where
  "js_add NaN b = NaN"
| "js_add a NaN = NaN"
| "js_add (Num x) (Num y) = rnd (x + y)"
| "js_add PosInf NegInf = NaN"
| "js_add NegInf PosInf = NaN"
| "js_add PosInf b = PosInf"
| "js_add a PosInf = PosInf"
| "js_add NegInf b = NegInf"
| "js_add a NegInf = NegInf"

definition js_sub :: "jsnum \<Rightarrow> jsnum \<Rightarrow> jsnum" where
  "js_sub a b = js_add a (js_neg b)"

fun js_mul :: "jsnum \<Rightarrow> jsnum \<Rightarrow> jsnum" where
  "js_mul NaN b = NaN"
| "js_mul a NaN = NaN"
| "js_mul (Num x) (Num y) = rnd (x * y)"
| "js_mul (Num x) b = (if x = 0 then NaN else if 0 < x then b else js_neg b)"
| "js_mul a (Num y) = (if y = 0 then NaN else if 0 < y then a else js_neg a)"
| "js_mul PosInf b = b"
| "js_mul NegInf b = js_neg b"

fun js_div :: "jsnum \<Rightarrow> jsnum \<Rightarrow> jsnum" where
  "js_div NaN b = NaN"
| "js_div a NaN = NaN"
| "js_div (Num x) (Num y) =
     (if y = 0 then (if x = 0 then NaN else if 0 < x then PosInf else NegInf)
      else rnd (x / y))"
| "js_div (Num x) b = Num 0"
| "js_div a (Num y) = (if 0 \<le> y then a else js_neg a)"
| "js_div a b = NaN"

text \<open>\<open>Math.floor\<close>, \<open>Math.ceil\<close>, \<open>Math.min\<close> and the comparison \<open>>=\<close>.\<close>

fun js_floor :: "jsnum \<Rightarrow> jsnum" where
  "js_floor (Num x) = Num (of_int \<lfloor>x\<rfloor>)"
| "js_floor a = a"

fun js_ceil :: "jsnum \<Rightarrow> jsnum" where
  "js_ceil (Num x) = Num (of_int \<lceil>x\<rceil>)"
| "js_ceil a = a"

fun js_min :: "jsnum \<Rightarrow> jsnum \<Rightarrow> jsnum" where
  "js_min NaN b = NaN"
| "js_min a NaN = NaN"
| "js_min NegInf b = NegInf"
| "js_min a NegInf = NegInf"
| "js_min PosInf b = b"
| "js_min a PosInf = a"
| "js_min (Num x) (Num y) = Num (min x y)"

fun js_ge :: "jsnum \<Rightarrow> jsnum \<Rightarrow> bool" where
  "js_ge NaN b = False"
| "js_ge a NaN = False"
| "js_ge PosInf b = True"
| "js_ge a NegInf = True"
| "js_ge (Num x) (Num y) = (y \<le> x)"
| "js_ge a b = False"

subsection \<open>The admission decision in double precision\<close>

text \<open>
  The same methods with the arithmetic of the code: the tokens of a bucket are a
  \<open>jsnum\<close> and every operator of the source is the operation on doubles. The values of
  the configuration and of the clock are finite doubles.
\<close>

record TokenBucket_dbl =
  tokens_dbl :: jsnum
  lastRefill_dbl :: real

record RateLimiter_dbl =
  buckets_dbl :: "(string \<times> TokenBucket_dbl) list"
  config_dbl :: RateLimitConfig
  cleanupIntervalId_dbl :: "nat option"

definition new_RateLimiter_dbl :: "RateLimitConfig \<Rightarrow> RateLimiter_dbl" where
  "new_RateLimiter_dbl cfg = \<lparr>buckets_dbl = [], config_dbl = cfg, cleanupIntervalId_dbl = None\<rparr>"

definition isAllowed_dbl :: "string \<Rightarrow> real \<Rightarrow> RateLimiter_dbl \<Rightarrow> bool \<times> RateLimiter_dbl" where
  "isAllowed_dbl identifier now s =
     (case map_of (buckets_dbl s) identifier of
        None \<Rightarrow>
          (True, s\<lparr>buckets_dbl := AList.update identifier
                      \<lparr>tokens_dbl = js_sub (Num (bucketSize (config_dbl s))) (Num 1),
                       lastRefill_dbl = now\<rparr> (buckets_dbl s)\<rparr>)
      | Some bucket \<Rightarrow>
          (let elapsed = js_sub (Num now) (Num (lastRefill_dbl bucket));
               tokensToAdd = js_mul (js_floor (js_div elapsed (Num (interval (config_dbl s)))))
                                    (Num (tokensPerInterval (config_dbl s)));
               bucket1 = bucket\<lparr>tokens_dbl := js_min (Num (bucketSize (config_dbl s)))
                                                       (js_add (tokens_dbl bucket) tokensToAdd)\<rparr>;
               bucket2 = bucket1\<lparr>lastRefill_dbl := now\<rparr>
           in if js_ge (tokens_dbl bucket2) (Num 1)
              then (True, s\<lparr>buckets_dbl := AList.update identifier
                              (bucket2\<lparr>tokens_dbl := js_sub (tokens_dbl bucket2) (Num 1)\<rparr>)
                              (buckets_dbl s)\<rparr>)
              else (False, s\<lparr>buckets_dbl := AList.update identifier bucket2 (buckets_dbl s)\<rparr>)))"

definition getResetTimeSeconds_dbl :: "string \<Rightarrow> RateLimiter_dbl \<Rightarrow> jsnum" where
  "getResetTimeSeconds_dbl identifier s =
     (case map_of (buckets_dbl s) identifier of
        None \<Rightarrow> Num 0
      | Some bucket \<Rightarrow>
          if js_ge (tokens_dbl bucket) (Num 1) then Num 0
          else (let tokensNeeded = js_sub (Num 1) (tokens_dbl bucket);
                    msUntilToken = js_ceil (js_mul (js_div tokensNeeded
                                                      (Num (tokensPerInterval (config_dbl s))))
                                                   (Num (interval (config_dbl s))))
                in js_ceil (js_div msUntilToken (Num 1000))))"

fun burst_dbl :: "nat \<Rightarrow> string \<Rightarrow> real \<Rightarrow> RateLimiter_dbl \<Rightarrow> bool list \<times> RateLimiter_dbl" where
  "burst_dbl 0 identifier now s = ([], s)"
| "burst_dbl (Suc n) identifier now s =
     (case isAllowed_dbl identifier now s of
        (r, s') \<Rightarrow> (case burst_dbl n identifier now s' of (rs, s'') \<Rightarrow> (r # rs, s'')))"

text \<open>The refill as the specification words it, each operation being the one on doubles.\<close>

definition spec_refill_dbl :: "RateLimitConfig \<Rightarrow> TokenBucket_dbl \<Rightarrow> real \<Rightarrow> jsnum" where
  "spec_refill_dbl cfg b now =
     js_min (Num (bucketSize cfg))
       (js_add (tokens_dbl b)
          (js_mul (js_floor (js_div (js_sub (Num now) (Num (lastRefill_dbl b))) (Num (interval cfg))))
                  (Num (tokensPerInterval cfg))))"

section \<open>Properties\<close>

subsection \<open>Bucket creation\<close>


lemma isAllowed_config [simp]: "config (snd (isAllowed identifier now s)) = config s"
  by (simp add: isAllowed_def Let_def split: option.splits)

lemma isAllowed_timer [simp]:
  "cleanupIntervalId (snd (isAllowed identifier now s)) = cleanupIntervalId s"
  by (simp add: isAllowed_def Let_def split: option.splits)



lemma map_of_isAllowed_other:
  "a \<noteq> b \<Longrightarrow> map_of (buckets (snd (isAllowed a now s))) b = map_of (buckets s) b"
  by (simp add: isAllowed_def Let_def update_conv' split: option.splits)




subsection \<open>Bursts\<close>


lemma burst_Suc_snd:
  "snd (burst (Suc n) identifier now s) = snd (burst n identifier now (snd (isAllowed identifier now s)))"
  by (simp split: prod.splits)

lemma burst_config [simp]: "config (snd (burst n identifier now s)) = config s"
  by (induction n arbitrary: s) (simp_all add: burst_Suc_snd del: burst.simps(2))






subsection \<open>Independence of identifiers\<close>

lemma isAllowed_cong:
  assumes "map_of (buckets s) b = map_of (buckets s') b" and "config s = config s'"
  shows "fst (isAllowed b t s) = fst (isAllowed b t s')"
    and "map_of (buckets (snd (isAllowed b t s))) b = map_of (buckets (snd (isAllowed b t s'))) b"
  using assms by (simp_all add: isAllowed_def Let_def update_conv' split: option.splits)

text \<open>
  C8: for two distinct identifiers \<open>a\<close> and \<open>b\<close> and any store, a call of
  \<open>isAllowed\<close> for \<open>a\<close> leaves the bucket of \<open>b\<close> as it is (tokens and
  lastRefill), so the next admission decision for \<open>b\<close>, the bucket it leaves and
  both queries for \<open>b\<close> are the same with and without the call for \<open>a\<close>.
\<close>

theorem isAllowed_independent:
  assumes "a \<noteq> b"
  shows "map_of (buckets (snd (isAllowed a now s))) b = map_of (buckets s) b
       \<and> fst (isAllowed b t (snd (isAllowed a now s))) = fst (isAllowed b t s)
       \<and> map_of (buckets (snd (isAllowed b t (snd (isAllowed a now s))))) b =
           map_of (buckets (snd (isAllowed b t s))) b
       \<and> getRemainingTokens b (snd (isAllowed a now s)) = getRemainingTokens b s
       \<and> getResetTimeSeconds b (snd (isAllowed a now s)) = getResetTimeSeconds b s"
proof -
  have m: "map_of (buckets (snd (isAllowed a now s))) b = map_of (buckets s) b"
    using assms by (rule map_of_isAllowed_other)
  have c: "config (snd (isAllowed a now s)) = config s" by simp
  have g: "getRemainingTokens b (snd (isAllowed a now s)) = getRemainingTokens b s"
    unfolding getRemainingTokens_def m c by (rule refl)
  have r: "getResetTimeSeconds b (snd (isAllowed a now s)) = getResetTimeSeconds b s"
    unfolding getResetTimeSeconds_def m c by (rule refl)
  show ?thesis
    using m isAllowed_cong [OF m c, of t] g r by simp
qed


theorem isAllowed_independent_witness:
  "''1.2.3.4'' \<noteq> ''5.6.7.8''
   \<and> map_of (buckets (snd (isAllowed ''1.2.3.4'' 10
         (snd (isAllowed ''5.6.7.8'' 0 rateLimiter))))) ''5.6.7.8''
       = map_of (buckets (snd (isAllowed ''5.6.7.8'' 0 rateLimiter))) ''5.6.7.8''
   \<and> fst (isAllowed ''5.6.7.8'' 20 (snd (isAllowed ''1.2.3.4'' 10
         (snd (isAllowed ''5.6.7.8'' 0 rateLimiter)))))
       = fst (isAllowed ''5.6.7.8'' 20 (snd (isAllowed ''5.6.7.8'' 0 rateLimiter)))"
proof -
  have ne: "''1.2.3.4'' \<noteq> ''5.6.7.8''" by simp
  show ?thesis
    using ne isAllowed_independent [OF ne, of 10 "snd (isAllowed ''5.6.7.8'' 0 rateLimiter)" 20]
    by blast
qed

subsection \<open>The queries\<close>

text \<open>
  C4: \<open>getRemainingTokens\<close> answers \<open>bucketSize\<close> for an identifier with no
  bucket and otherwise the floor of the tokens the bucket holds, as stored: it takes no
  clock value, does no refill and leaves the limiter as it is.
\<close>

theorem getRemainingTokens_read:
  "(map_of (buckets s) identifier = None \<longrightarrow>
      getRemainingTokens identifier s = bucketSize (config s))
   \<and> (\<forall>b. map_of (buckets s) identifier = Some b \<longrightarrow>
      getRemainingTokens identifier s = of_int \<lfloor>tokens b\<rfloor>)
   \<and> step (GetRemainingTokens identifier) s = s"
  by (simp add: getRemainingTokens_def)

theorem getRemainingTokens_read_witness:
  "map_of (buckets rateLimiter) ''1.2.3.4'' = None
   \<and> getRemainingTokens ''1.2.3.4'' rateLimiter = 10
   \<and> map_of (buckets \<lparr>buckets = [(''1.2.3.4'', \<lparr>tokens = 5 / 2, lastRefill = 0\<rparr>)],
                       config = rateLimiter_config, cleanupIntervalId = None\<rparr>) ''1.2.3.4''
       = Some \<lparr>tokens = 5 / 2, lastRefill = 0\<rparr>
   \<and> getRemainingTokens ''1.2.3.4''
         \<lparr>buckets = [(''1.2.3.4'', \<lparr>tokens = 5 / 2, lastRefill = 0\<rparr>)],
           config = rateLimiter_config, cleanupIntervalId = None\<rparr> = 2"
proof -
  let ?b = "\<lparr>tokens = 5 / 2, lastRefill = 0\<rparr>"
  let ?s = "\<lparr>buckets = [(''1.2.3.4'', ?b)], config = rateLimiter_config,
             cleanupIntervalId = None\<rparr>"
  have a: "map_of (buckets rateLimiter) ''1.2.3.4'' = None"
    by (simp add: rateLimiter_def new_RateLimiter_def)
  have b: "map_of (buckets ?s) ''1.2.3.4'' = Some ?b" by simp
  have c: "bucketSize (config rateLimiter) = 10"
    by (simp add: rateLimiter_def new_RateLimiter_def rateLimiter_config_def)
  have f: "real_of_int \<lfloor>tokens ?b\<rfloor> = 2" by simp
  from getRemainingTokens_read [of rateLimiter "''1.2.3.4''"] a c
  have r1: "getRemainingTokens ''1.2.3.4'' rateLimiter = 10" by simp
  from getRemainingTokens_read [of ?s "''1.2.3.4''"] b
  have "getRemainingTokens ''1.2.3.4'' ?s = real_of_int \<lfloor>tokens ?b\<rfloor>" by blast
  then have r2: "getRemainingTokens ''1.2.3.4'' ?s = 2" using f by simp
  show ?thesis using a b r1 r2 by simp
qed

subsection \<open>The sweep\<close>

text \<open>
  The loop deletes exactly the keys of the stale entries. A \<open>Map\<close> holds a key once,
  which the association list states as \<open>distinct (map fst (buckets s))\<close>; every
  operation keeps it, and the empty store of the constructor has it.
\<close>

lemma fold_cleanup_entry:
  "fold (cleanup_entry now) es bs =
     filter (\<lambda>(k, b). \<not> (\<exists>b'. (k, b') \<in> set es \<and> now - lastRefill b' > staleThreshold)) bs"
proof (induction es arbitrary: bs)
  case Nil
  show ?case by simp
next
  case (Cons e es)
  obtain k b where e: "e = (k, b)" by (cases e)
  show ?case
  proof (cases "now - lastRefill b > staleThreshold")
    case True
    then have "cleanup_entry now e bs = filter (\<lambda>(k', b'). k' \<noteq> k) bs"
      by (simp add: cleanup_entry_def e AList.delete_eq) (rule filter_cong, auto)
    then show ?thesis
      using True by (simp add: Cons.IH e) (rule filter_cong, auto)
  next
    case False
    then have "cleanup_entry now e bs = bs"
      by (simp add: cleanup_entry_def e)
    then show ?thesis
      using False by (simp add: Cons.IH e) (rule filter_cong, auto)
  qed
qed

lemma cleanup_filter:
  assumes "distinct (map fst (buckets s))"
  shows "buckets (cleanup now s) =
           filter (\<lambda>(k, b). \<not> now - lastRefill b > staleThreshold) (buckets s)"
proof -
  have "filter (\<lambda>(k, b). \<not> (\<exists>b'. (k, b') \<in> set (buckets s) \<and> now - lastRefill b' > staleThreshold)) (buckets s)
      = filter (\<lambda>(k, b). \<not> now - lastRefill b > staleThreshold) (buckets s)"
  proof (rule filter_cong [OF refl])
    fix e assume mem: "e \<in> set (buckets s)"
    obtain k b where e: "e = (k, b)" by (cases e)
    have same: "b' = b" if "(k, b') \<in> set (buckets s)" for b'
      using eq_key_imp_eq_value [OF assms that] mem e by simp
    have "(\<exists>b'. (k, b') \<in> set (buckets s) \<and> now - lastRefill b' > staleThreshold)
            \<longleftrightarrow> now - lastRefill b > staleThreshold"
      using same mem e by blast
    then show "(case e of (k, b) \<Rightarrow> \<not> (\<exists>b'. (k, b') \<in> set (buckets s) \<and> now - lastRefill b' > staleThreshold))
        = (case e of (k, b) \<Rightarrow> \<not> now - lastRefill b > staleThreshold)"
      unfolding e by (simp only: prod.case)
  qed
  then show ?thesis by (simp add: cleanup_def fold_cleanup_entry)
qed


lemma distinct_cleanup:
  "distinct (map fst (buckets s)) \<Longrightarrow> distinct (map fst (buckets (cleanup now s)))"
  by (simp add: cleanup_def fold_cleanup_entry distinct_map_filter)

lemma distinct_isAllowed:
  "distinct (map fst (buckets s)) \<Longrightarrow> distinct (map fst (buckets (snd (isAllowed identifier now s))))"
  by (simp add: isAllowed_def Let_def distinct_update split: option.splits)

lemma distinct_step:
  "distinct (map fst (buckets s)) \<Longrightarrow> distinct (map fst (buckets (step x s)))"
  by (cases x) (simp_all add: distinct_isAllowed distinct_cleanup)

lemma distinct_run:
  "distinct (map fst (buckets s)) \<Longrightarrow> distinct (map fst (buckets (run xs s)))"
  by (induction xs arbitrary: s) (simp_all add: distinct_step)

lemma distinct_reachable: "distinct (map fst (buckets (run xs (new_RateLimiter cfg))))"
  by (rule distinct_run) (simp add: new_RateLimiter_def)

lemma map_of_cleanup:
  assumes "distinct (map fst (buckets s))"
  shows "map_of (buckets (cleanup now s)) k = Some b \<longleftrightarrow>
           map_of (buckets s) k = Some b \<and> \<not> now - lastRefill b > staleThreshold"
proof -
  have d: "distinct (map fst (buckets (cleanup now s)))"
    using assms by (rule distinct_cleanup)
  show ?thesis
    using assms d by (auto simp: cleanup_filter [OF assms])
qed

text \<open>
  C6: after one pass of the sweep at time \<open>now\<close>, the store holds a bucket for an
  identifier exactly when it held that bucket before and \<open>now - lastRefill\<close> is at
  most the threshold of 5 minutes (300000 ms). A bucket refilled 5 minutes and 1 second
  ago is removed, one refilled 4 minutes and 59 seconds ago stays. The pass changes
  nothing else.
\<close>

theorem sweep_eviction:
  assumes "distinct (map fst (buckets s))"
  shows "(\<forall>k b. map_of (buckets (cleanup now s)) k = Some b \<longleftrightarrow>
            map_of (buckets s) k = Some b \<and> now - lastRefill b \<le> 5 * 60 * 1000)
       \<and> (\<forall>k b. map_of (buckets s) k = Some b \<and> now - lastRefill b = (5 * 60 + 1) * 1000 \<longrightarrow>
            map_of (buckets (cleanup now s)) k = None)
       \<and> (\<forall>k b. map_of (buckets s) k = Some b \<and> now - lastRefill b = (4 * 60 + 59) * 1000 \<longrightarrow>
            map_of (buckets (cleanup now s)) k = Some b)
       \<and> config (cleanup now s) = config s
       \<and> cleanupIntervalId (cleanup now s) = cleanupIntervalId s"
proof -
  have iff: "map_of (buckets (cleanup now s)) k = Some b \<longleftrightarrow>
            map_of (buckets s) k = Some b \<and> now - lastRefill b \<le> 5 * 60 * 1000" for k b
    using map_of_cleanup [OF assms, of now k b] by (auto simp: staleThreshold_def)
  have gone: "map_of (buckets (cleanup now s)) k = None"
    if "map_of (buckets s) k = Some b \<and> now - lastRefill b = (5 * 60 + 1) * 1000" for k b
  proof (cases "map_of (buckets (cleanup now s)) k")
    case None
    then show ?thesis .
  next
    case (Some b')
    then have "map_of (buckets s) k = Some b' \<and> now - lastRefill b' \<le> 5 * 60 * 1000"
      using iff by blast
    then show ?thesis using that by simp
  qed
  have kept: "map_of (buckets (cleanup now s)) k = Some b"
    if "map_of (buckets s) k = Some b \<and> now - lastRefill b = (4 * 60 + 59) * 1000" for k b
    using that iff [of k b] by simp
  show ?thesis using iff gone kept by (simp add: cleanup_def) blast
qed

theorem sweep_eviction_witness:
  "distinct (map fst (buckets \<lparr>buckets = [(''old'', \<lparr>tokens = 3, lastRefill = 0\<rparr>),
                                           (''young'', \<lparr>tokens = 0, lastRefill = 2000\<rparr>),
                                           (''edge'', \<lparr>tokens = 0, lastRefill = 1000\<rparr>)],
       config = rateLimiter_config, cleanupIntervalId = None\<rparr>))
   \<and> map_of (buckets (cleanup 301000
        \<lparr>buckets = [(''old'', \<lparr>tokens = 3, lastRefill = 0\<rparr>),
                    (''young'', \<lparr>tokens = 0, lastRefill = 2000\<rparr>),
                    (''edge'', \<lparr>tokens = 0, lastRefill = 1000\<rparr>)],
          config = rateLimiter_config, cleanupIntervalId = None\<rparr>)) ''old'' = None
   \<and> map_of (buckets (cleanup 301000
        \<lparr>buckets = [(''old'', \<lparr>tokens = 3, lastRefill = 0\<rparr>),
                    (''young'', \<lparr>tokens = 0, lastRefill = 2000\<rparr>),
                    (''edge'', \<lparr>tokens = 0, lastRefill = 1000\<rparr>)],
          config = rateLimiter_config, cleanupIntervalId = None\<rparr>)) ''young''
       = Some \<lparr>tokens = 0, lastRefill = 2000\<rparr>
   \<and> map_of (buckets (cleanup 301000
        \<lparr>buckets = [(''old'', \<lparr>tokens = 3, lastRefill = 0\<rparr>),
                    (''young'', \<lparr>tokens = 0, lastRefill = 2000\<rparr>),
                    (''edge'', \<lparr>tokens = 0, lastRefill = 1000\<rparr>)],
          config = rateLimiter_config, cleanupIntervalId = None\<rparr>)) ''edge''
       = Some \<lparr>tokens = 0, lastRefill = 1000\<rparr>"
proof -
  let ?o = "\<lparr>tokens = 3, lastRefill = 0\<rparr>"
  let ?y = "\<lparr>tokens = 0, lastRefill = 2000\<rparr>"
  let ?e = "\<lparr>tokens = 0, lastRefill = 1000\<rparr>"
  let ?s = "\<lparr>buckets = [(''old'', ?o), (''young'', ?y), (''edge'', ?e)],
             config = rateLimiter_config, cleanupIntervalId = None\<rparr>"
  have d: "distinct (map fst (buckets ?s))" by simp
  note inst = sweep_eviction [OF d, of 301000]
  have o: "map_of (buckets ?s) ''old'' = Some ?o \<and> 301000 - lastRefill ?o = (5 * 60 + 1) * 1000"
    by simp
  have y: "map_of (buckets ?s) ''young'' = Some ?y \<and> 301000 - lastRefill ?y = (4 * 60 + 59) * 1000"
    by simp
  have e: "map_of (buckets ?s) ''edge'' = Some ?e \<and> 301000 - lastRefill ?e \<le> 5 * 60 * 1000"
    by simp
  from inst o have r1: "map_of (buckets (cleanup 301000 ?s)) ''old'' = None" by blast
  from inst y have r2: "map_of (buckets (cleanup 301000 ?s)) ''young'' = Some ?y" by blast
  from inst e have r3: "map_of (buckets (cleanup 301000 ?s)) ''edge'' = Some ?e" by blast
  show ?thesis using d r1 r2 r3 by simp
qed

subsection \<open>The lifecycle of the sweep\<close>

lemma step_timer [simp]: "cleanupIntervalId (step x s) = cleanupIntervalId s"
  by (cases x) (simp_all add: cleanup_def)

lemma timer_agrees_start: "timer_agrees w \<Longrightarrow> timer_agrees (startCleanup ms w)"
  by (cases w)
     (auto simp: timer_agrees_def startCleanup_def setInterval_def truthy_def Let_def
           split: option.splits)

lemma timer_agrees_stop: "timer_agrees w \<Longrightarrow> timer_agrees (stopCleanup w)"
  by (cases w)
     (auto simp: timer_agrees_def stopCleanup_def clearInterval_def truthy_def
           split: option.splits)

lemma timer_agrees_step:
  assumes "timer_agrees w"
  shows "timer_agrees (call_step c w)"
proof (cases c)
  case (Start ms)
  then show ?thesis using assms by (simp add: timer_agrees_start)
next
  case Stop
  then show ?thesis using assms by (simp add: timer_agrees_stop)
next
  case (Call x)
  then show ?thesis using assms by (simp add: timer_agrees_def split: option.splits)
qed

lemma timer_agrees_run: "timer_agrees w \<Longrightarrow> timer_agrees (call_run cs w)"
  by (induction cs arbitrary: w) (simp_all add: timer_agrees_step)

lemma start_running: "sweep_state w = Running \<Longrightarrow> startCleanup ms w = w"
  by (cases w) (simp add: sweep_state_def startCleanup_def split: if_splits)

lemma stop_stopped: "sweep_state w = Stopped \<Longrightarrow> stopCleanup w = w"
  by (cases w) (simp add: sweep_state_def stopCleanup_def split: if_splits)

lemma start_gives_running: "sweep_state (startCleanup ms w) = Running"
  by (cases w)
     (simp add: sweep_state_def startCleanup_def setInterval_def truthy_def Let_def)

lemma stop_gives_stopped: "sweep_state (stopCleanup w) = Stopped"
  by (cases w)
     (simp add: sweep_state_def stopCleanup_def truthy_def split: option.splits)

lemma timers_count:
  "timer_agrees w \<Longrightarrow>
     length (activeTimers (snd w)) = (if sweep_state w = Running then 1 else 0)"
  by (cases w)
     (auto simp: timer_agrees_def sweep_state_def truthy_def split: option.splits
           dest: arg_cong [where f = length])

text \<open>
  C7: the lifecycle controls are idempotent. In every state reached from a new limiter
  (in a runtime with no timer yet) by any calls of \<open>startCleanup\<close>,
  \<open>stopCleanup\<close> and the store operations: \<open>startCleanup\<close> while the sweep runs
  changes nothing, \<open>stopCleanup\<close> while it is stopped changes nothing, the runtime
  holds one timer when the sweep runs and none when it is stopped; after
  \<open>startCleanup\<close> the sweep runs with exactly one timer, also when started again;
  after \<open>stopCleanup\<close> it is stopped with no timer, also when stopped twice.
\<close>

theorem sweep_lifecycle:
  assumes "activeTimers rt = []" and "w = call_run cs (new_RateLimiter cfg, rt)"
  shows "(sweep_state w = Running \<longrightarrow> startCleanup ms w = w)
       \<and> (sweep_state w = Stopped \<longrightarrow> stopCleanup w = w)
       \<and> length (activeTimers (snd w)) = (if sweep_state w = Running then 1 else 0)
       \<and> sweep_state (startCleanup ms w) = Running
       \<and> length (activeTimers (snd (startCleanup ms w))) = 1
       \<and> startCleanup ms' (startCleanup ms w) = startCleanup ms w
       \<and> sweep_state (stopCleanup w) = Stopped
       \<and> activeTimers (snd (stopCleanup w)) = []
       \<and> stopCleanup (stopCleanup w) = stopCleanup w
       \<and> activeTimers (snd (stopCleanup (stopCleanup (startCleanup ms w)))) = []"
proof -
  have "timer_agrees (new_RateLimiter cfg, rt)"
    using assms(1) by (simp add: timer_agrees_def new_RateLimiter_def)
  then have inv: "timer_agrees w"
    unfolding assms(2) by (rule timer_agrees_run)
  have c0: "length (activeTimers (snd w)) = (if sweep_state w = Running then 1 else 0)"
    using inv by (rule timers_count)
  have c1: "length (activeTimers (snd (startCleanup ms w))) = 1"
    using timers_count [OF timer_agrees_start [OF inv, of ms]]
    by (simp add: start_gives_running)
  have c2: "activeTimers (snd (stopCleanup w)) = []"
    using timers_count [OF timer_agrees_stop [OF inv]]
    by (simp add: stop_gives_stopped)
  have c3: "activeTimers (snd (stopCleanup (stopCleanup (startCleanup ms w)))) = []"
    using timers_count [OF timer_agrees_stop [OF timer_agrees_stop [OF timer_agrees_start [OF inv, of ms]]]]
    by (simp add: stop_gives_stopped)
  show ?thesis
    using c0 c1 c2 c3
    by (simp add: start_running stop_stopped start_gives_running stop_gives_stopped)
qed

theorem sweep_lifecycle_witness:
  "activeTimers no_timers = []
   \<and> sweep_state (call_run [Start 60000] (new_RateLimiter rateLimiter_config, no_timers)) = Running
   \<and> startCleanup 1000 (call_run [Start 60000] (new_RateLimiter rateLimiter_config, no_timers))
       = call_run [Start 60000] (new_RateLimiter rateLimiter_config, no_timers)
   \<and> length (activeTimers (snd (call_run [Start 60000]
         (new_RateLimiter rateLimiter_config, no_timers)))) = 1
   \<and> sweep_state (call_run [] (new_RateLimiter rateLimiter_config, no_timers)) = Stopped
   \<and> stopCleanup (call_run [] (new_RateLimiter rateLimiter_config, no_timers))
       = call_run [] (new_RateLimiter rateLimiter_config, no_timers)
   \<and> activeTimers (snd (stopCleanup (stopCleanup (startCleanup 60000
         (call_run [] (new_RateLimiter rateLimiter_config, no_timers)))))) = []"
proof -
  have a: "activeTimers no_timers = []" by (simp add: no_timers_def)
  have run: "sweep_state (call_run [Start 60000] (new_RateLimiter rateLimiter_config, no_timers)) = Running"
    by (simp add: start_gives_running)
  have st: "sweep_state (call_run [] (new_RateLimiter rateLimiter_config, no_timers)) = Stopped"
    by (simp add: sweep_state_def new_RateLimiter_def truthy_def)
  note i1 = sweep_lifecycle [OF a refl, of "[Start 60000]" rateLimiter_config 1000 1000]
  note i0 = sweep_lifecycle [OF a refl, of "[]" rateLimiter_config 60000 60000]
  from i1 run have r1: "startCleanup 1000 (call_run [Start 60000] (new_RateLimiter rateLimiter_config, no_timers))
       = call_run [Start 60000] (new_RateLimiter rateLimiter_config, no_timers)"
    by blast
  from i1 run have r2: "length (activeTimers (snd (call_run [Start 60000]
         (new_RateLimiter rateLimiter_config, no_timers)))) = 1"
    by simp
  from i0 st have r3: "stopCleanup (call_run [] (new_RateLimiter rateLimiter_config, no_timers))
       = call_run [] (new_RateLimiter rateLimiter_config, no_timers)"
    by blast
  from i0 have r4: "activeTimers (snd (stopCleanup (stopCleanup (startCleanup 60000
         (call_run [] (new_RateLimiter rateLimiter_config, no_timers)))))) = []"
    by blast
  show ?thesis using a run st r1 r2 r3 r4 by blast
qed

subsection \<open>Bounds on the tokens\<close>





lemma step_config [simp]: "config (step x s) = config s"
  by (cases x) (simp_all add: cleanup_def)

lemma run_config [simp]: "config (run xs s) = config s"
  by (induction xs arbitrary: s) simp_all




lemma clock_reads_Cons: "clock_reads (x # xs) = clock_reads [x] @ clock_reads xs"
  by (cases x) simp_all






subsection \<open>Whole numbers of tokens\<close>







section \<open>Properties of the double-precision embedding\<close>

subsection \<open>Rounding to a double\<close>

lemma bitlen_eqI:
  fixes n :: int and k :: nat
  assumes "2 ^ k \<le> n" and "n < 2 ^ Suc k"
  shows "bitlen n = int k + 1"
proof -
  have pos: "0 < n"
    using assms(1) by (rule less_le_trans [OF zero_less_power, rotated]) simp
  have b1: "1 \<le> bitlen n"
    using pos bitlen_eq_zero_iff [of n] bitlen_nonneg [of n] by linarith
  define b where "b = nat (bitlen n - 1)"
  have bb: "bitlen n = int b + 1" "nat (bitlen n) = Suc b"
    using b1 by (simp_all add: b_def)
  have nb: "nat (bitlen n - 1) = b" by (simp add: b_def)
  have lo: "(2::int) ^ b \<le> n" and hi: "n < (2::int) ^ Suc b"
    using bitlen_bounds [OF pos] unfolding nb bb(2) by blast+
  have "(2::int) ^ b < 2 ^ Suc k" using lo assms(2) by linarith
  then have 1: "b < Suc k"
    by (metis one_less_numeral_iff power_less_imp_less_exp semiring_norm(76))
  have "(2::int) ^ k < 2 ^ Suc b" using assms(1) hi by linarith
  then have 2: "k < Suc b"
    by (metis one_less_numeral_iff power_less_imp_less_exp semiring_norm(76))
  from 1 2 have "b = k" by simp
  then show ?thesis using bb by simp
qed

lemma pow2_pos [simp]: "0 < pow2 e"
  by (simp add: pow2_def)

lemma pow2_neg: "pow2 (- int k) = 1 / 2 ^ k"
  by (cases k) (simp_all add: pow2_def nat_add_distrib)

lemma ilog2_eqI:
  assumes "pow2 k \<le> x" and "x < pow2 (k + 1)"
  shows "ilog2 x = k"
proof (cases "1 \<le> x")
  case True
  have k0: "0 \<le> k"
  proof (rule ccontr)
    assume "\<not> 0 \<le> k"
    then have "k + 1 \<le> 0" by simp
    then have "pow2 (k + 1) \<le> 1" by (auto simp: pow2_def)
    then show False using assms(2) True by simp
  qed
  define j where "j = nat k"
  have k: "k = int j" using k0 by (simp add: j_def)
  have lo: "(2::real) ^ j \<le> x" and hi: "x < (2::real) ^ Suc j"
    using assms by (simp_all add: k pow2_def nat_add_distrib)
  have "real_of_int (2 ^ j) \<le> x" using lo by simp
  then have 1: "2 ^ j \<le> \<lfloor>x\<rfloor>" by (simp only: le_floor_iff)
  have "x < real_of_int (2 ^ Suc j)" using hi by simp
  then have 2: "\<lfloor>x\<rfloor> < 2 ^ Suc j" by (simp only: floor_less_iff)
  show ?thesis
    using bitlen_eqI [OF 1 2] True by (simp add: ilog2_def k)
next
  case False
  have xpos: "0 < x" using assms(1) pow2_pos [of k] by linarith
  have kneg: "k < 0"
  proof (rule ccontr)
    assume "\<not> k < 0"
    then have "1 \<le> pow2 k" by (auto simp: pow2_def)
    then show False using assms(1) False by simp
  qed
  define j where "j = nat (- k - 1)"
  have k: "k = - int (Suc j)" using kneg by (simp add: j_def)
  have k1: "k + 1 = - int j" using k by simp
  have lo: "1 / 2 ^ Suc j \<le> x" using assms(1) unfolding k pow2_neg .
  have hi: "x < 1 / 2 ^ j" using assms(2) unfolding k1 pow2_neg .
  have y1: "1 / x \<le> 2 ^ Suc j"
    using lo xpos by (simp add: field_simps)
  have y2: "2 ^ j < 1 / x"
    using hi xpos by (simp add: field_simps)
  have "1 / x \<le> real_of_int (2 ^ Suc j)" using y1 by simp
  then have c1: "\<lceil>1 / x\<rceil> \<le> 2 ^ Suc j" by (simp only: ceiling_le_iff)
  have "real_of_int (2 ^ j) < 1 / x" using y2 by simp
  then have c2: "2 ^ j < \<lceil>1 / x\<rceil>" by (simp only: less_ceiling_iff)
  have 1: "2 ^ j \<le> \<lceil>1 / x\<rceil> - 1" using c2 by simp
  have 2: "\<lceil>1 / x\<rceil> - 1 < 2 ^ Suc j" using c1 by simp
  show ?thesis
    using bitlen_eqI [OF 1 2] False by (simp add: ilog2_def k)
qed

lemma rne_of_int [simp]: "rne (of_int n) = n"
  by (simp add: rne_def)

lemma rnd_pos_eval:
  assumes "0 < x" and "pow2 k \<le> x" and "x < pow2 (k + 1)"
    and "of_int (rne (x / pow2 (max (k - 52) (- 1074)))) * pow2 (max (k - 52) (- 1074)) = y"
    and "y < 2 ^ 1024"
  shows "rnd x = Num y"
  using assms(1,4,5) by (simp add: rnd_def round_pos_def ilog2_eqI [OF assms(2,3)] Let_def)

lemma round_pos_int:
  fixes n :: int
  assumes "0 < n" and "n \<le> 2 ^ 53"
  shows "round_pos (of_int n) = of_int n"
proof -
  define b where "b = bitlen n"
  have b1: "1 \<le> b"
    using assms(1) bitlen_eq_zero_iff [of n] bitlen_nonneg [of n] by (simp add: b_def)
  have il: "ilog2 (real_of_int n) = b - 1"
    using assms(1) by (simp add: ilog2_def b_def)
  have "(2::int) ^ nat (b - 1) \<le> n"
    using bitlen_bounds [OF assms(1)] by (simp add: b_def)
  then have le: "(2::int) ^ nat (b - 1) \<le> 2 ^ 53" using assms(2) by linarith
  have "nat (b - 1) \<le> 53"
    using le by (metis one_less_numeral_iff power_le_imp_le_exp semiring_norm(76))
  then have b54: "b \<le> 54" by simp
  have e: "max (ilog2 (real_of_int n) - 52) (- 1074) = b - 53"
    using b1 by (simp add: il)
  have rp: "round_pos (real_of_int n) =
              real_of_int (rne (real_of_int n / pow2 (b - 53))) * pow2 (b - 53)"
    by (simp add: round_pos_def e Let_def)
  show ?thesis
  proof (cases "b = 54")
    case True
    have "(2::int) ^ 53 \<le> n"
      using bitlen_bounds [OF assms(1)] by (simp add: b_def [symmetric] True)
    then have n: "n = 2 ^ 53" using assms(2) by simp
    have p: "pow2 (b - 53) = 2" by (simp add: True pow2_def)
    have "real_of_int n / 2 = real_of_int (2 ^ 52)" by (simp add: n)
    then have "rne (real_of_int n / 2) = 2 ^ 52" by (simp only: rne_of_int)
    then show ?thesis unfolding rp p by (simp add: n)
  next
    case False
    then have b53: "b \<le> 53" using b54 by simp
    define j where "j = nat (53 - b)"
    have ee: "b - 53 = - int j" using b53 by (simp add: j_def)
    have "real_of_int n / pow2 (- int j) = real_of_int (n * 2 ^ j)"
      by (simp add: pow2_neg)
    then have "rne (real_of_int n / pow2 (- int j)) = n * 2 ^ j"
      by (simp only: rne_of_int)
    then show ?thesis unfolding rp ee by (simp add: pow2_neg)
  qed
qed

lemma rnd_int:
  fixes n :: int
  assumes "\<bar>n\<bar> \<le> 2 ^ 53"
  shows "rnd (of_int n) = Num (of_int n)"
proof -
  consider "n = 0" | "0 < n" | "n < 0" by linarith
  then show ?thesis
  proof cases
    case 1
    then show ?thesis by (simp add: rnd_def)
  next
    case 2
    then have "round_pos (of_int n) = of_int n"
      using assms by (intro round_pos_int) simp_all
    moreover have "real_of_int n < 2 ^ 1024"
    proof -
      have "real_of_int n \<le> 2 ^ 53"
        using assms 2 by (simp add: of_int_le_numeral_power_cancel_iff)
      also have "\<dots> < (2::real) ^ 1024" by (rule power_strict_increasing) simp_all
      finally show ?thesis .
    qed
    ultimately show ?thesis using 2 by (simp add: rnd_def)
  next
    case 3
    then have "round_pos (of_int (- n)) = of_int (- n)"
      using assms by (intro round_pos_int) simp_all
    then have r: "round_pos (- real_of_int n) = - real_of_int n" by simp
    moreover have "- real_of_int n < 2 ^ 1024"
    proof -
      have "real_of_int (- n) \<le> 2 ^ 53"
        using assms 3 by (simp only: of_int_le_numeral_power_cancel_iff)
      also have "\<dots> < (2::real) ^ 1024" by (rule power_strict_increasing) simp_all
      finally show ?thesis by simp
    qed
    ultimately show ?thesis using 3 by (simp add: rnd_def)
  qed
qed

lemma rnd_numeral [simp]:
  "numeral w \<le> (2::int) ^ 53 \<Longrightarrow> rnd (numeral w) = Num (numeral w)"
  using rnd_int [of "numeral w"] by simp

lemma rnd_zero [simp]: "rnd 0 = Num 0"
  by (simp add: rnd_def)

lemma rnd_one [simp]: "rnd 1 = Num 1"
  using rnd_int [of 1] by simp

text \<open>Some values of \<open>rnd\<close>: one tenth, one third, and a tie that goes to the even significand.\<close>

lemma rnd_examples:
  "rnd (1 / 10) = Num (3602879701896397 / 36028797018963968)"
  "rnd (1 / 3) = Num (6004799503160661 / 18014398509481984)"
  "rnd (2 ^ 53 + 1) = Num (2 ^ 53)"
  "rnd (2 ^ 53 + 3) = Num (2 ^ 53 + 4)"
proof -
  show "rnd (1 / 10) = Num (3602879701896397 / 36028797018963968)"
    by (rule rnd_pos_eval [where k = "- 4"]) (simp_all add: pow2_def rne_def Let_def)
  show "rnd (1 / 3) = Num (6004799503160661 / 18014398509481984)"
    by (rule rnd_pos_eval [where k = "- 2"]) (simp_all add: pow2_def rne_def Let_def)
  show "rnd (2 ^ 53 + 1) = Num (2 ^ 53)"
    by (rule rnd_pos_eval [where k = 53]) (simp_all add: pow2_def rne_def Let_def)
  show "rnd (2 ^ 53 + 3) = Num (2 ^ 53 + 4)"
    by (rule rnd_pos_eval [where k = 53]) (simp_all add: pow2_def rne_def Let_def)
qed

lemma ilog2_bounds:
  assumes "0 < x"
  shows "pow2 (ilog2 x) \<le> x" and "x < pow2 (ilog2 x + 1)"
proof -
  have "pow2 (ilog2 x) \<le> x \<and> x < pow2 (ilog2 x + 1)"
  proof (cases "1 \<le> x")
    case True
    define n where "n = \<lfloor>x\<rfloor>"
    have n1: "1 \<le> n" using True by (simp add: n_def le_floor_iff)
    then have npos: "0 < n" by simp
    define b where "b = bitlen n"
    have b1: "1 \<le> b"
      using npos bitlen_eq_zero_iff [of n] bitlen_nonneg [of n] by (simp add: b_def)
    have il: "ilog2 x = b - 1" using True by (simp add: ilog2_def n_def b_def)
    have lo: "(2::int) ^ nat (b - 1) \<le> n" and hi: "n < (2::int) ^ nat b"
      using bitlen_bounds [OF npos] by (simp_all add: b_def)
    have "real_of_int ((2::int) ^ nat (b - 1)) \<le> real_of_int n"
      using lo by (simp only: of_int_le_iff)
    also have "\<dots> \<le> x" by (simp add: n_def)
    finally have 1: "pow2 (b - 1) \<le> x" using b1 by (simp add: pow2_def)
    have "n + 1 \<le> (2::int) ^ nat b" using hi by simp
    then have "real_of_int (n + 1) \<le> real_of_int ((2::int) ^ nat b)"
      by (simp only: of_int_le_iff)
    moreover have "x < real_of_int (n + 1)" by (simp add: n_def)
    ultimately have 2: "x < pow2 b" using b1 by (simp add: pow2_def)
    show ?thesis using 1 2 by (simp add: il)
  next
    case False
    define c where "c = \<lceil>1 / x\<rceil>"
    have y: "1 < 1 / x" using False assms by simp
    have c2: "2 \<le> c" using y by (simp add: c_def less_ceiling_iff [symmetric])
    define n where "n = c - 1"
    have npos: "0 < n" using c2 by (simp add: n_def)
    define b where "b = bitlen n"
    have b1: "1 \<le> b"
      using npos bitlen_eq_zero_iff [of n] bitlen_nonneg [of n] by (simp add: b_def)
    have il: "ilog2 x = - b" using False by (simp add: ilog2_def c_def n_def b_def)
    have lo: "(2::int) ^ nat (b - 1) \<le> n" and hi: "n < (2::int) ^ nat b"
      using bitlen_bounds [OF npos] by (simp_all add: b_def)
    have "1 / x \<le> real_of_int c" by (simp add: c_def)
    also have "real_of_int c \<le> real_of_int ((2::int) ^ nat b)"
      using hi unfolding n_def by (simp only: of_int_le_iff)
    finally have u: "1 / x \<le> 2 ^ nat b" by simp
    have "real_of_int ((2::int) ^ nat (b - 1)) \<le> real_of_int n"
      using lo by (simp only: of_int_le_iff)
    also have "real_of_int n < 1 / x" unfolding n_def c_def by linarith
    finally have l: "2 ^ nat (b - 1) < 1 / x" by simp
    have 1: "pow2 (- b) \<le> x"
      using u assms b1 by (simp add: pow2_def field_simps)
    have "x < 1 / 2 ^ nat (b - 1)"
      using l assms by (simp add: field_simps)
    moreover have "pow2 (- b + 1) = 1 / 2 ^ nat (b - 1)"
      using b1 by (cases "b = 1") (simp_all add: pow2_def)
    ultimately have 2: "x < pow2 (- b + 1)" by simp
    show ?thesis using 1 2 by (simp add: il)
  qed
  then show "pow2 (ilog2 x) \<le> x" and "x < pow2 (ilog2 x + 1)" by simp_all
qed

subsection \<open>Refill and consume\<close>

lemma js_sub_Num [simp]: "js_sub (Num x) (Num y) = rnd (x - y)"
  by (simp add: js_sub_def)

lemma isAllowed_dbl_create:
  assumes "map_of (buckets_dbl s) identifier = None"
  shows "isAllowed_dbl identifier now s =
           (True, s\<lparr>buckets_dbl := AList.update identifier
                       \<lparr>tokens_dbl = js_sub (Num (bucketSize (config_dbl s))) (Num 1),
                        lastRefill_dbl = now\<rparr> (buckets_dbl s)\<rparr>)"
  using assms by (simp add: isAllowed_dbl_def)

lemma isAllowed_dbl_existing:
  assumes "map_of (buckets_dbl s) identifier = Some b"
  shows "isAllowed_dbl identifier now s =
           (js_ge (spec_refill_dbl (config_dbl s) b now) (Num 1),
            s\<lparr>buckets_dbl := AList.update identifier
                \<lparr>tokens_dbl = (if js_ge (spec_refill_dbl (config_dbl s) b now) (Num 1)
                                then js_sub (spec_refill_dbl (config_dbl s) b now) (Num 1)
                                else spec_refill_dbl (config_dbl s) b now),
                 lastRefill_dbl = now\<rparr> (buckets_dbl s)\<rparr>)"
  using assms by (cases b) (simp add: isAllowed_dbl_def Let_def spec_refill_dbl_def)

lemma isAllowed_dbl_config [simp]:
  "config_dbl (snd (isAllowed_dbl identifier now s)) = config_dbl s"
  by (simp add: isAllowed_dbl_def Let_def split: option.splits)



subsection \<open>Bursts in double precision\<close>

lemma rnd_nat:
  assumes "k \<le> 2 ^ 53"
  shows "rnd (real k) = Num (real k)"
proof -
  have "int k \<le> int (2 ^ 53)" using assms by (simp only: of_nat_le_iff)
  then have "\<bar>int k\<bar> \<le> 2 ^ 53" by simp
  from rnd_int [OF this] show ?thesis by simp
qed

lemma burst_dbl_Suc_fst:
  "fst (burst_dbl (Suc n) identifier now s) =
     fst (isAllowed_dbl identifier now s)
       # fst (burst_dbl n identifier now (snd (isAllowed_dbl identifier now s)))"
  by (simp split: prod.splits)

lemma burst_dbl_Suc_snd:
  "snd (burst_dbl (Suc n) identifier now s) =
     snd (burst_dbl n identifier now (snd (isAllowed_dbl identifier now s)))"
  by (simp split: prod.splits)

lemma burst_dbl_config [simp]: "config_dbl (snd (burst_dbl n identifier now s)) = config_dbl s"
  by (induction n arbitrary: s) (simp_all add: burst_dbl_Suc_snd del: burst_dbl.simps(2))

lemma burst_dbl_snoc_snd:
  "snd (burst_dbl (Suc n) identifier now s) =
     snd (isAllowed_dbl identifier now (snd (burst_dbl n identifier now s)))"
  by (induction n arbitrary: s) (simp_all add: burst_dbl_Suc_snd del: burst_dbl.simps(2))

lemma burst_dbl_snoc_fst:
  "fst (burst_dbl (Suc n) identifier now s) =
     fst (burst_dbl n identifier now s)
       @ [fst (isAllowed_dbl identifier now (snd (burst_dbl n identifier now s)))]"
proof (induction n arbitrary: s)
  case 0
  show ?case by (simp add: burst_dbl_Suc_fst del: burst_dbl.simps(2))
next
  case (Suc n)
  show ?case
    using Suc.IH [of "snd (isAllowed_dbl identifier now s)"]
    by (simp add: burst_dbl_Suc_fst [of "Suc n"] burst_dbl_Suc_fst [of n] burst_dbl_Suc_snd [of n]
             del: burst_dbl.simps(2))
qed

text \<open>
  With no time elapsed and a whole number of tokens up to \<open>2 ^ 53\<close>, the refill leaves
  the tokens as they are: every operation is exact.
\<close>

lemma spec_refill_dbl_same_instant:
  assumes "interval cfg \<noteq> 0" and "k \<le> 2 ^ 53" and "real k \<le> bucketSize cfg"
  shows "spec_refill_dbl cfg \<lparr>tokens_dbl = Num (real k), lastRefill_dbl = now\<rparr> now = Num (real k)"
  using assms by (simp add: spec_refill_dbl_def rnd_nat min_def)

lemma burst_dbl_existing:
  assumes "map_of (buckets_dbl s) identifier = Some \<lparr>tokens_dbl = Num (real k), lastRefill_dbl = now\<rparr>"
    and "interval (config_dbl s) \<noteq> 0" and "k \<le> 2 ^ 53"
    and "real k \<le> bucketSize (config_dbl s)"
  shows "fst (burst_dbl k identifier now s) = replicate k True
       \<and> map_of (buckets_dbl (snd (burst_dbl k identifier now s))) identifier =
           Some \<lparr>tokens_dbl = Num 0, lastRefill_dbl = now\<rparr>"
  using assms
proof (induction k arbitrary: s)
  case 0
  then show ?case by simp
next
  case (Suc k)
  let ?s' = "snd (isAllowed_dbl identifier now s)"
  have k: "k \<le> 2 ^ 53" using Suc.prems(3) by simp
  have r: "spec_refill_dbl (config_dbl s) \<lparr>tokens_dbl = Num (real (Suc k)), lastRefill_dbl = now\<rparr> now
             = Num (real (Suc k))"
    using Suc.prems(2,3,4) by (rule spec_refill_dbl_same_instant)
  have sub: "js_sub (Num (real (Suc k))) (Num 1) = Num (real k)"
    using rnd_nat [OF k] by simp
  have ge: "js_ge (Num (real (Suc k))) (Num 1) = True" by simp
  have step: "isAllowed_dbl identifier now s =
      (True, s\<lparr>buckets_dbl := AList.update identifier
                 \<lparr>tokens_dbl = Num (real k), lastRefill_dbl = now\<rparr> (buckets_dbl s)\<rparr>)"
    by (simp only: isAllowed_dbl_existing [OF Suc.prems(1)] r ge sub if_True)
  have first: "fst (isAllowed_dbl identifier now s) = True"
    by (simp only: step fst_conv)
  have store: "map_of (buckets_dbl ?s') identifier = Some \<lparr>tokens_dbl = Num (real k), lastRefill_dbl = now\<rparr>"
    by (simp add: step update_conv')
  have le: "real k \<le> bucketSize (config_dbl ?s')" using Suc.prems(4) by simp
  have nz: "interval (config_dbl ?s') \<noteq> 0" using Suc.prems(2) by simp
  have IH: "fst (burst_dbl k identifier now ?s') = replicate k True
       \<and> map_of (buckets_dbl (snd (burst_dbl k identifier now ?s'))) identifier =
           Some \<lparr>tokens_dbl = Num 0, lastRefill_dbl = now\<rparr>"
    using Suc.IH [OF store nz k le] .
  show ?case
    using first IH by (simp add: burst_dbl_Suc_fst burst_dbl_Suc_snd del: burst_dbl.simps(2))
qed

lemma burst_dbl_fresh:
  assumes "map_of (buckets_dbl s) identifier = None"
    and "bucketSize (config_dbl s) = real n" and "1 \<le> n" and "n \<le> 2 ^ 53"
    and "interval (config_dbl s) \<noteq> 0"
  shows "fst (burst_dbl n identifier now s) = replicate n True"
    and "map_of (buckets_dbl (snd (burst_dbl n identifier now s))) identifier =
           Some \<lparr>tokens_dbl = Num 0, lastRefill_dbl = now\<rparr>"
    and "fst (isAllowed_dbl identifier now (snd (burst_dbl n identifier now s))) = False"
    and "map_of (buckets_dbl (snd (isAllowed_dbl identifier now (snd (burst_dbl n identifier now s)))))
           identifier = Some \<lparr>tokens_dbl = Num 0, lastRefill_dbl = now\<rparr>"
proof -
  obtain m where n: "n = Suc m" using assms(3) by (cases n) auto
  let ?s' = "snd (isAllowed_dbl identifier now s)"
  let ?z = "\<lparr>tokens_dbl = Num 0, lastRefill_dbl = now\<rparr>"
  have m: "m \<le> 2 ^ 53" using assms(4) n by simp
  have sub: "js_sub (Num (real (Suc m))) (Num 1) = Num (real m)"
    using rnd_nat [OF m] by simp
  have step: "isAllowed_dbl identifier now s =
      (True, s\<lparr>buckets_dbl := AList.update identifier
                 \<lparr>tokens_dbl = Num (real m), lastRefill_dbl = now\<rparr> (buckets_dbl s)\<rparr>)"
    by (simp only: isAllowed_dbl_create [OF assms(1)] assms(2) n sub)
  have first: "fst (isAllowed_dbl identifier now s) = True"
    by (simp only: step fst_conv)
  have store: "map_of (buckets_dbl ?s') identifier = Some \<lparr>tokens_dbl = Num (real m), lastRefill_dbl = now\<rparr>"
    by (simp add: step update_conv')
  have le: "real m \<le> bucketSize (config_dbl ?s')" using assms(2) n by simp
  have nz: "interval (config_dbl ?s') \<noteq> 0" using assms(5) by simp
  have rest: "fst (burst_dbl m identifier now ?s') = replicate m True
       \<and> map_of (buckets_dbl (snd (burst_dbl m identifier now ?s'))) identifier = Some ?z"
    using burst_dbl_existing [OF store nz m le] .
  show "fst (burst_dbl n identifier now s) = replicate n True"
    using first rest by (simp add: n burst_dbl_Suc_fst del: burst_dbl.simps(2))
  show final: "map_of (buckets_dbl (snd (burst_dbl n identifier now s))) identifier = Some ?z"
    using rest by (simp add: n burst_dbl_Suc_snd del: burst_dbl.simps(2))
  have "spec_refill_dbl (config_dbl s) \<lparr>tokens_dbl = Num (real 0), lastRefill_dbl = now\<rparr> now
          = Num (real 0)"
    using assms(2,5) by (intro spec_refill_dbl_same_instant) simp_all
  then have r: "spec_refill_dbl (config_dbl s) ?z now = Num 0"
    by simp
  have ge: "js_ge (Num 0) (Num 1) = False" by simp
  have last: "isAllowed_dbl identifier now (snd (burst_dbl n identifier now s)) =
      (False, (snd (burst_dbl n identifier now s))
                \<lparr>buckets_dbl := AList.update identifier ?z
                                  (buckets_dbl (snd (burst_dbl n identifier now s)))\<rparr>)"
    by (simp only: isAllowed_dbl_existing [OF final] burst_dbl_config r ge if_False)
  show "fst (isAllowed_dbl identifier now (snd (burst_dbl n identifier now s))) = False"
    by (simp only: last fst_conv)
  show "map_of (buckets_dbl (snd (isAllowed_dbl identifier now (snd (burst_dbl n identifier now s)))))
           identifier = Some ?z"
    by (simp add: last update_conv')
qed

text \<open>
  With an interval of zero the second call at one instant divides zero by zero: the
  bucket holds \<open>NaN\<close> from then on and every later call is denied.
\<close>

lemma interval_zero_stores_NaN:
  "snd (burst_dbl 2 ''1.2.3.4'' now
         (new_RateLimiter_dbl \<lparr>tokensPerInterval = 1, interval = 0, bucketSize = 10\<rparr>))
     = \<lparr>buckets_dbl = [(''1.2.3.4'', \<lparr>tokens_dbl = NaN, lastRefill_dbl = now\<rparr>)],
        config_dbl = \<lparr>tokensPerInterval = 1, interval = 0, bucketSize = 10\<rparr>,
        cleanupIntervalId_dbl = None\<rparr>"
  "fst (isAllowed_dbl ''1.2.3.4'' later
         \<lparr>buckets_dbl = [(''1.2.3.4'', \<lparr>tokens_dbl = NaN, lastRefill_dbl = now\<rparr>)],
           config_dbl = cfg, cleanupIntervalId_dbl = None\<rparr>) = False"
  by (simp_all add: numeral_2_eq_2 isAllowed_dbl_def new_RateLimiter_dbl_def Let_def)

subsection \<open>The reset time\<close>

lemma getResetTimeSeconds_dbl_below:
  assumes "map_of (buckets_dbl s) identifier = Some b" and "\<not> js_ge (tokens_dbl b) (Num 1)"
  shows "getResetTimeSeconds_dbl identifier s =
           js_ceil (js_div
              (js_ceil (js_mul (js_div (js_sub (Num 1) (tokens_dbl b))
                                       (Num (tokensPerInterval (config_dbl s))))
                               (Num (interval (config_dbl s)))))
              (Num 1000))"
  using assms by (simp add: getResetTimeSeconds_dbl_def Let_def)

text \<open>
  C5: \<open>getResetTimeSeconds\<close> answers 0 for an identifier with no bucket or with
  stored tokens \<open>>= 1\<close>, and otherwise
  \<open>ceil(ceil((1 - tokens) / tokensPerInterval * interval) / 1000)\<close>, computed as the
  code computes it, in doubles. With the default configuration (1 token per 2000 ms,
  bucket size 10), ten calls at one instant are admitted, the eleventh is denied, and the
  answer right after the bucket is exhausted (after the tenth call, and after the
  eleventh) is 2.
\<close>

theorem getResetTimeSeconds_formula:
  "(map_of (buckets_dbl s) identifier = None \<longrightarrow> getResetTimeSeconds_dbl identifier s = Num 0)
   \<and> (\<forall>b. map_of (buckets_dbl s) identifier = Some b \<and> js_ge (tokens_dbl b) (Num 1) \<longrightarrow>
          getResetTimeSeconds_dbl identifier s = Num 0)
   \<and> (\<forall>b. map_of (buckets_dbl s) identifier = Some b \<and> \<not> js_ge (tokens_dbl b) (Num 1) \<longrightarrow>
          getResetTimeSeconds_dbl identifier s =
            js_ceil (js_div
              (js_ceil (js_mul (js_div (js_sub (Num 1) (tokens_dbl b))
                                       (Num (tokensPerInterval (config_dbl s))))
                               (Num (interval (config_dbl s)))))
              (Num 1000)))
   \<and> fst (burst_dbl 11 ''1.2.3.4'' now (new_RateLimiter_dbl rateLimiter_config))
        = replicate 10 True @ [False]
   \<and> getResetTimeSeconds_dbl ''1.2.3.4''
        (snd (burst_dbl 10 ''1.2.3.4'' now (new_RateLimiter_dbl rateLimiter_config))) = Num 2
   \<and> getResetTimeSeconds_dbl ''1.2.3.4''
        (snd (burst_dbl 11 ''1.2.3.4'' now (new_RateLimiter_dbl rateLimiter_config))) = Num 2"
proof -
  let ?r = "new_RateLimiter_dbl rateLimiter_config"
  have a: "map_of (buckets_dbl ?r) ''1.2.3.4'' = None"
    by (simp add: new_RateLimiter_dbl_def)
  have b: "bucketSize (config_dbl ?r) = real 10"
    by (simp add: new_RateLimiter_dbl_def rateLimiter_config_def)
  have c: "(1::nat) \<le> 10" and d: "(10::nat) \<le> 2 ^ 53" by simp_all
  have e: "interval (config_dbl ?r) \<noteq> 0"
    by (simp add: new_RateLimiter_dbl_def rateLimiter_config_def)
  have cfg: "config_dbl ?r = rateLimiter_config"
    by (simp add: new_RateLimiter_dbl_def)
  note f = burst_dbl_fresh [OF a b c d e, of now]
  have eleven: "(11::nat) = Suc 10" by simp
  have two: "js_ceil (js_div (js_ceil (js_mul (js_div (js_sub (Num 1) (Num 0)) (Num 1)) (Num 2000)))
                             (Num 1000)) = Num 2"
    by simp
  have res: "fst (burst_dbl 11 ''1.2.3.4'' now ?r) = replicate 10 True @ [False]"
    unfolding eleven burst_dbl_snoc_fst using f(1,3) by simp
  have lt: "\<not> js_ge (tokens_dbl \<lparr>tokens_dbl = Num 0, lastRefill_dbl = now\<rparr>) (Num 1)"
    by simp
  have s10: "getResetTimeSeconds_dbl ''1.2.3.4'' (snd (burst_dbl 10 ''1.2.3.4'' now ?r)) = Num 2"
    using getResetTimeSeconds_dbl_below [OF f(2) lt]
    by (simp only: burst_dbl_config new_RateLimiter_dbl_def RateLimiter_dbl.select_convs
                   rateLimiter_config_def TokenBucket_dbl.select_convs
                   RateLimitConfig.select_convs two)
  have s11: "getResetTimeSeconds_dbl ''1.2.3.4'' (snd (burst_dbl 11 ''1.2.3.4'' now ?r)) = Num 2"
    unfolding eleven burst_dbl_snoc_snd
    using getResetTimeSeconds_dbl_below [OF f(4) lt]
    by (simp only: isAllowed_dbl_config burst_dbl_config new_RateLimiter_dbl_def
                   RateLimiter_dbl.select_convs rateLimiter_config_def
                   TokenBucket_dbl.select_convs RateLimitConfig.select_convs two)
  have gen: "(map_of (buckets_dbl s) identifier = None \<longrightarrow> getResetTimeSeconds_dbl identifier s = Num 0)
   \<and> (\<forall>b. map_of (buckets_dbl s) identifier = Some b \<and> js_ge (tokens_dbl b) (Num 1) \<longrightarrow>
          getResetTimeSeconds_dbl identifier s = Num 0)
   \<and> (\<forall>b. map_of (buckets_dbl s) identifier = Some b \<and> \<not> js_ge (tokens_dbl b) (Num 1) \<longrightarrow>
          getResetTimeSeconds_dbl identifier s =
            js_ceil (js_div
              (js_ceil (js_mul (js_div (js_sub (Num 1) (tokens_dbl b))
                                       (Num (tokensPerInterval (config_dbl s))))
                               (Num (interval (config_dbl s)))))
              (Num 1000)))"
    by (simp add: getResetTimeSeconds_dbl_def Let_def)
  show ?thesis using gen res s10 s11 by blast
qed

theorem getResetTimeSeconds_formula_witness:
  "map_of (buckets_dbl (snd (isAllowed_dbl ''1.2.3.4'' 0
      (new_RateLimiter_dbl \<lparr>tokensPerInterval = 75, interval = 75000, bucketSize = 1\<rparr>)))) ''1.2.3.4''
     = Some \<lparr>tokens_dbl = Num 0, lastRefill_dbl = 0\<rparr>
   \<and> \<not> js_ge (tokens_dbl \<lparr>tokens_dbl = Num 0, lastRefill_dbl = 0\<rparr>) (Num 1)
   \<and> getResetTimeSeconds_dbl ''1.2.3.4'' (snd (isAllowed_dbl ''1.2.3.4'' 0
      (new_RateLimiter_dbl \<lparr>tokensPerInterval = 75, interval = 75000, bucketSize = 1\<rparr>))) = Num 2
   \<and> map_of (buckets_dbl (snd (isAllowed_dbl ''1.2.3.4'' 0
      (new_RateLimiter_dbl \<lparr>tokensPerInterval = 75, interval = 75000, bucketSize = 1\<rparr>)))) ''5.6.7.8''
     = None
   \<and> getResetTimeSeconds_dbl ''5.6.7.8'' (snd (isAllowed_dbl ''1.2.3.4'' 0
      (new_RateLimiter_dbl \<lparr>tokensPerInterval = 75, interval = 75000, bucketSize = 1\<rparr>))) = Num 0"
proof -
  let ?cfg = "\<lparr>tokensPerInterval = 75, interval = 75000, bucketSize = 1\<rparr>"
  let ?s = "snd (isAllowed_dbl ''1.2.3.4'' 0 (new_RateLimiter_dbl ?cfg))"
  let ?b = "\<lparr>tokens_dbl = Num 0, lastRefill_dbl = 0\<rparr>"
  have st: "map_of (buckets_dbl ?s) ''1.2.3.4'' = Some ?b"
    by (simp add: isAllowed_dbl_def new_RateLimiter_dbl_def)
  have no: "map_of (buckets_dbl ?s) ''5.6.7.8'' = None"
    by (simp add: isAllowed_dbl_def new_RateLimiter_dbl_def)
  have cfg: "config_dbl ?s = ?cfg" by (simp add: new_RateLimiter_dbl_def)
  have lt: "\<not> js_ge (tokens_dbl ?b) (Num 1)" by simp
  have n1: "js_sub (Num 1) (Num 0) = Num 1" by simp
  have d1: "js_div (Num 1) (Num 75) = Num (7686143364045647 / 576460752303423488)"
    by (simp only: js_div.simps, simp, rule rnd_pos_eval [where k = "- 7"])
       (simp_all add: pow2_def rne_def Let_def)
  have m1: "js_mul (Num (7686143364045647 / 576460752303423488)) (Num 75000)
              = Num (8796093022208001 / 8796093022208)"
    by (simp only: js_mul.simps, rule rnd_pos_eval [where k = 9])
       (simp_all add: pow2_def rne_def Let_def)
  have c1: "js_ceil (Num (8796093022208001 / 8796093022208)) = Num 1001" by simp
  have d2: "js_div (Num 1001) (Num 1000) = Num (2254051613498933 / 2251799813685248)"
    by (simp only: js_div.simps, simp, rule rnd_pos_eval [where k = 0])
       (simp_all add: pow2_def rne_def Let_def)
  have c2: "js_ceil (Num (2254051613498933 / 2251799813685248)) = Num 2" by simp
  have v: "js_ceil (js_div
              (js_ceil (js_mul (js_div (js_sub (Num 1) (tokens_dbl ?b))
                                       (Num (tokensPerInterval (config_dbl ?s))))
                               (Num (interval (config_dbl ?s)))))
              (Num 1000)) = Num 2"
    by (simp only: cfg TokenBucket_dbl.select_convs RateLimitConfig.select_convs n1 d1 m1 c1 d2 c2)
  note inst = getResetTimeSeconds_formula [of ?s "''1.2.3.4''" 0]
  note inst2 = getResetTimeSeconds_formula [of ?s "''5.6.7.8''" 0]
  from inst st lt have "getResetTimeSeconds_dbl ''1.2.3.4'' ?s =
      js_ceil (js_div
              (js_ceil (js_mul (js_div (js_sub (Num 1) (tokens_dbl ?b))
                                       (Num (tokensPerInterval (config_dbl ?s))))
                               (Num (interval (config_dbl ?s)))))
              (Num 1000))"
    by blast
  then have r1: "getResetTimeSeconds_dbl ''1.2.3.4'' ?s = Num 2" by (simp only: v)
  from inst2 no have r2: "getResetTimeSeconds_dbl ''5.6.7.8'' ?s = Num 0" by blast
  show ?thesis using st lt r1 no r2 by blast
qed

end
